theory Spec2Isabelle
  imports Complex_Main "HOL-Library.Word"
begin

unbundle bit_operations_syntax

section \<open>Data model of \<open>generate_bitmap.py\<close>\<close>

text \<open>
  The script rasterizes land polygons onto a latitude/longitude grid of \<open>uint8\<close> cells,
  spot-checks the grid, and encodes it: bit-packing, run-length encoding, base64.

  A NumPy \<open>uint8\<close> array is a shape together with a row-major buffer of bytes. Bytes are
  8-bit words, so that \<open><<\<close> and \<open>|=\<close> on \<open>uint8\<close> arrays are \<open>push_bit\<close> and \<open>OR\<close>
  on \<open>8 word\<close>.
\<close>

type_synonym u8 = "8 word"

record ndarray2 =
  shape0 :: nat
  shape1 :: nat
  buffer :: "u8 list"

definition well_shaped :: "ndarray2 \<Rightarrow> bool" where
  "well_shaped a \<longleftrightarrow> length (buffer a) = shape0 a * shape1 a"

text \<open>A boolean grid holds only the bytes 0 (water) and 1 (land).\<close>

definition is_boolean :: "ndarray2 \<Rightarrow> bool" where
  "is_boolean a \<longleftrightarrow> list_all (\<lambda>c. c = 0 \<or> c = 1) (buffer a)"

text \<open>The exceptions that the modelled statements can raise.\<close>

datatype py_error = ValueError | IndexError | ZeroDivisionError | OverflowError

text \<open>
  Python floats are not modelled by a HOL type. The float operations that the script uses
  are parameters: every statement below holds for each interpretation of them, IEEE
  binary64 included. \<open>float_lit q\<close> is the float denoted by the decimal literal of value
  \<open>q\<close>; \<open>float_of_int\<close> is the conversion that mixed \<open>int\<close>/\<open>float\<close> arithmetic inserts;
  \<open>fdiv\<close> is \<open>/\<close>, which raises \<open>ZeroDivisionError\<close> (here \<open>None\<close>) on a zero divisor;
  \<open>ftrunc\<close> is \<open>int(x)\<close>, which truncates a finite float and raises \<open>ValueError\<close> on a
  NaN and \<open>OverflowError\<close> on an infinity.
\<close>

datatype trunc_result = Truncated int | NotANumber | Infinite

record 'f float_ops =
  float_lit :: "rat \<Rightarrow> 'f"
  float_of_int :: "int \<Rightarrow> 'f"
  fadd :: "'f \<Rightarrow> 'f \<Rightarrow> 'f"
  fsub :: "'f \<Rightarrow> 'f \<Rightarrow> 'f"
  fmul :: "'f \<Rightarrow> 'f \<Rightarrow> 'f"
  fneg :: "'f \<Rightarrow> 'f"
  fdiv :: "'f \<Rightarrow> 'f \<Rightarrow> 'f option"
  ftrunc :: "'f \<Rightarrow> trunc_result"

text \<open>
  The geometry engine (shapely) is a parameter as well: \<open>unary_union\<close> merges a list of
  geometries, and \<open>prep_contains m (x, y)\<close> is \<open>prep(m).contains(Point(x, y))\<close>.
\<close>

record ('g, 'm, 'f) geom_lib =
  unary_union :: "'g list \<Rightarrow> 'm"
  prep_contains :: "'m \<Rightarrow> 'f \<times> 'f \<Rightarrow> bool"

subsection \<open>Array primitives\<close>

text \<open>\<open>range(n)\<close>: empty for a negative \<open>n\<close>.\<close>

definition py_range :: "int \<Rightarrow> int list" where
  "py_range n = map int [0..<nat n]"

text \<open>
  An index into an axis of size \<open>n\<close>: negative indices count from the end, anything outside
  \<open>-n \<le> i < n\<close> raises \<open>IndexError\<close>.
\<close>

definition norm_index :: "nat \<Rightarrow> int \<Rightarrow> py_error + nat" where
  "norm_index n i =
     (if 0 \<le> i \<and> i < int n then Inr (nat i)
      else if - int n \<le> i \<and> i < 0 then Inr (nat (i + int n))
      else Inl IndexError)"

text \<open>\<open>a[row, col]\<close> and \<open>a[row, col] = v\<close>.\<close>

definition get_item :: "ndarray2 \<Rightarrow> int \<Rightarrow> int \<Rightarrow> py_error + u8" where
  "get_item a row col =
     (case norm_index (shape0 a) row of
        Inl e \<Rightarrow> Inl e
      | Inr r \<Rightarrow>
          (case norm_index (shape1 a) col of
             Inl e \<Rightarrow> Inl e
           | Inr c \<Rightarrow> Inr (buffer a ! (r * shape1 a + c))))"

definition set_item :: "ndarray2 \<Rightarrow> int \<Rightarrow> int \<Rightarrow> u8 \<Rightarrow> py_error + ndarray2" where
  "set_item a row col v =
     (case norm_index (shape0 a) row of
        Inl e \<Rightarrow> Inl e
      | Inr r \<Rightarrow>
          (case norm_index (shape1 a) col of
             Inl e \<Rightarrow> Inl e
           | Inr c \<Rightarrow> Inr (a\<lparr>buffer := (buffer a)[r * shape1 a + c := v]\<rparr>)))"

text \<open>\<open>np.zeros(n, dtype=np.uint8)\<close> and \<open>np.zeros((rows, cols), dtype=np.uint8)\<close>.\<close>

definition zeros :: "nat \<Rightarrow> u8 list" where
  "zeros n = replicate n 0"

definition np_zeros :: "int \<Rightarrow> int \<Rightarrow> py_error + ndarray2" where
  "np_zeros rows cols =
     (if rows < 0 \<or> cols < 0 then Inl ValueError
      else Inr \<lparr>shape0 = nat rows, shape1 = nat cols, buffer = zeros (nat rows * nat cols)\<rparr>)"

text \<open>\<open>a.flatten()\<close>, \<open>dst[:len(src)] = src\<close> and \<open>xs[start::step]\<close>.\<close>

definition flatten :: "ndarray2 \<Rightarrow> u8 list" where
  "flatten a = buffer a"

definition assign_prefix :: "u8 list \<Rightarrow> u8 list \<Rightarrow> u8 list" where
  "assign_prefix dst src = src @ drop (length src) dst"

definition slice_step :: "'a list \<Rightarrow> nat \<Rightarrow> nat \<Rightarrow> 'a list" where
  "slice_step xs start step =
     map (\<lambda>j. xs ! (start + j * step)) [0..<(length xs - start + step - 1) div step]"

section \<open>The rasterizer: \<open>generate_grid\<close>\<close>

definition offsets :: "'f float_ops \<Rightarrow> 'f list" where
  "offsets fl = [float_lit fl (17 / 100), float_lit fl (1 / 2), float_lit fl (83 / 100)]"

text \<open>\<open>lat = 90.0 - (row + yo) * res\<close> and \<open>lng = -180.0 + (col + xo) * res\<close>.\<close>

definition cell_lat :: "'f float_ops \<Rightarrow> 'f \<Rightarrow> int \<Rightarrow> 'f \<Rightarrow> 'f" where
  "cell_lat fl res row yo =
     fsub fl (float_lit fl 90) (fmul fl (fadd fl (float_of_int fl row) yo) res)"

definition cell_lng :: "'f float_ops \<Rightarrow> 'f \<Rightarrow> int \<Rightarrow> 'f \<Rightarrow> 'f" where
  "cell_lng fl res col xo =
     fadd fl (fneg fl (float_lit fl 180)) (fmul fl (fadd fl (float_of_int fl col) xo) res)"

text \<open>
  The inner \<open>for xo in offsets\<close> loop: a hit sets \<open>is_land\<close> and breaks.
\<close>

fun x_loop ::
  "('g, 'm, 'f) geom_lib \<Rightarrow> 'f float_ops \<Rightarrow> 'm \<Rightarrow> 'f \<Rightarrow> int \<Rightarrow> 'f \<Rightarrow> bool \<Rightarrow> 'f list \<Rightarrow> bool"
where
  "x_loop lib fl prepared res col lat is_land [] = is_land"
| "x_loop lib fl prepared res col lat is_land (xo # xos) =
     (let lng = cell_lng fl res col xo
      in if prep_contains lib prepared (lng, lat) then True
         else x_loop lib fl prepared res col lat is_land xos)"

text \<open>
  The outer \<open>for yo in offsets\<close> loop: it breaks as soon as \<open>is_land\<close> is set.
\<close>

fun y_loop ::
  "('g, 'm, 'f) geom_lib \<Rightarrow> 'f float_ops \<Rightarrow> 'm \<Rightarrow> 'f \<Rightarrow> int \<Rightarrow> int \<Rightarrow> bool \<Rightarrow> 'f list \<Rightarrow> bool"
where
  "y_loop lib fl prepared res row col is_land [] = is_land"
| "y_loop lib fl prepared res row col is_land (yo # yos) =
     (if is_land then is_land
      else (let lat = cell_lat fl res row yo
            in y_loop lib fl prepared res row col
                 (x_loop lib fl prepared res col lat is_land (offsets fl)) yos))"

definition cell_is_land ::
  "('g, 'm, 'f) geom_lib \<Rightarrow> 'f float_ops \<Rightarrow> 'm \<Rightarrow> 'f \<Rightarrow> int \<Rightarrow> int \<Rightarrow> bool" where
  "cell_is_land lib fl prepared res row col =
     y_loop lib fl prepared res row col False (offsets fl)"

text \<open>\<open>for col in range(cols)\<close>: a land cell is written with 1.\<close>

fun col_loop ::
  "('g, 'm, 'f) geom_lib \<Rightarrow> 'f float_ops \<Rightarrow> 'm \<Rightarrow> 'f \<Rightarrow> int \<Rightarrow> int list \<Rightarrow> ndarray2
     \<Rightarrow> py_error + ndarray2"
where
  "col_loop lib fl prepared res row [] grid = Inr grid"
| "col_loop lib fl prepared res row (col # cols) grid =
     (if cell_is_land lib fl prepared res row col
      then (case set_item grid row col 1 of
              Inl e \<Rightarrow> Inl e
            | Inr grid' \<Rightarrow> col_loop lib fl prepared res row cols grid')
      else col_loop lib fl prepared res row cols grid)"

text \<open>
  \<open>for row in range(rows)\<close>. After every 180th row the progress line computes
  \<open>checked / total\<close> on Python integers, which raises \<open>ZeroDivisionError\<close> when
  \<open>total = rows * cols\<close> is 0. The timing and the printed text do not reach the result
  (the summary line after the loop divides a NumPy scalar, which warns and does not raise).
\<close>

fun row_loop ::
  "('g, 'm, 'f) geom_lib \<Rightarrow> 'f float_ops \<Rightarrow> 'm \<Rightarrow> 'f \<Rightarrow> int list \<Rightarrow> int \<Rightarrow> int
     \<Rightarrow> ndarray2 \<Rightarrow> py_error + ndarray2"
where
  "row_loop lib fl prepared res [] cols total_cells grid = Inr grid"
| "row_loop lib fl prepared res (row # rows) cols total_cells grid =
     (case col_loop lib fl prepared res row (py_range cols) grid of
        Inl e \<Rightarrow> Inl e
      | Inr grid' \<Rightarrow>
          if (row + 1) mod 180 = 0 \<and> total_cells = 0 then Inl ZeroDivisionError
          else row_loop lib fl prepared res rows cols total_cells grid')"

text \<open>
  The dataset is the list of geometry entries of the shapefile as read, \<open>None\<close> for a
  null one; \<open>land_geoms\<close> keeps the non-null ones. Reading the file is outside the model.
\<close>

definition land_geoms :: "'g option list \<Rightarrow> 'g list" where
  "land_geoms world = List.map_filter id world"

definition generate_grid ::
  "('g, 'm, 'f) geom_lib \<Rightarrow> 'f float_ops \<Rightarrow> 'g option list \<Rightarrow> int \<Rightarrow> int \<Rightarrow> 'f
     \<Rightarrow> py_error + ndarray2" where
  "generate_grid lib fl world rows cols res =
     (let prepared = unary_union lib (land_geoms world)
      in case np_zeros rows cols of
           Inl e \<Rightarrow> Inl e
         | Inr grid \<Rightarrow>
             (let total_cells = rows * cols
              in row_loop lib fl prepared res (py_range rows) cols total_cells grid))"

section \<open>The validator: \<open>validate_grid\<close>\<close>

text \<open>The nested function \<open>check\<close>; the label is only printed and is left out.\<close>

definition check :: "'f float_ops \<Rightarrow> ndarray2 \<Rightarrow> 'f \<Rightarrow> 'f \<Rightarrow> 'f \<Rightarrow> bool \<Rightarrow> py_error + bool" where
  "check fl grid res lat lng expected_land =
     (case fdiv fl (fsub fl (float_of_int fl 90) lat) res of
        None \<Rightarrow> Inl ZeroDivisionError
      | Some q1 \<Rightarrow>
     (case ftrunc fl q1 of
        NotANumber \<Rightarrow> Inl ValueError
      | Infinite \<Rightarrow> Inl OverflowError
      | Truncated row0 \<Rightarrow>
     (case fdiv fl (fadd fl lng (float_of_int fl 180)) res of
        None \<Rightarrow> Inl ZeroDivisionError
      | Some q2 \<Rightarrow>
     (case ftrunc fl q2 of
        NotANumber \<Rightarrow> Inl ValueError
      | Infinite \<Rightarrow> Inl OverflowError
      | Truncated col0 \<Rightarrow>
          (let row = max 0 (min (int (shape0 grid) - 1) row0);
               col = max 0 (min (int (shape1 grid) - 1) col0)
           in case get_item grid row col of
                Inl e \<Rightarrow> Inl e
              | Inr c \<Rightarrow> (let actual = (c \<noteq> 0) in Inr (actual = expected_land)))))))"

text \<open>
  The nine calls of \<open>check\<close>, in the order of the source, as a table of
  (latitude, longitude, expected land). A negative literal is the negation of a literal.
\<close>

definition validation_points :: "(rat \<times> rat \<times> bool) list" where
  "validation_points =
     [(3777 / 100, - (12242 / 100), True),
      (20, - 160, False),
      (3568 / 100, 13969 / 100, True),
      (197 / 10, - (1555 / 10), True),
      (515 / 10, - (12 / 100), True),
      (0, - 30, False),
      (- (3387 / 100), 15121 / 100, True),
      (2131 / 100, - (15786 / 100), True),
      (0, 0, False)]"

definition signed_lit :: "'f float_ops \<Rightarrow> rat \<Rightarrow> 'f" where
  "signed_lit fl q = (if q < 0 then fneg fl (float_lit fl (- q)) else float_lit fl q)"

text \<open>\<open>all_ok &= check(...)\<close>: every check runs, an exception ends the run.\<close>

fun check_points ::
  "'f float_ops \<Rightarrow> ndarray2 \<Rightarrow> 'f \<Rightarrow> bool \<Rightarrow> (rat \<times> rat \<times> bool) list \<Rightarrow> py_error + bool" where
  "check_points fl grid res all_ok [] = Inr all_ok"
| "check_points fl grid res all_ok ((lat, lng, expected_land) # rest) =
     (case check fl grid res (signed_lit fl lat) (signed_lit fl lng) expected_land of
        Inl e \<Rightarrow> Inl e
      | Inr ok \<Rightarrow> check_points fl grid res (all_ok \<and> ok) rest)"

definition validate_grid :: "'f float_ops \<Rightarrow> ndarray2 \<Rightarrow> 'f \<Rightarrow> py_error + bool" where
  "validate_grid fl grid res = check_points fl grid res True validation_points"

subsection \<open>Default arguments\<close>

text \<open>
  \<open>def generate_grid(rows=720, cols=1440, res=0.25)\<close> and
  \<open>def validate_grid(grid, res=0.25)\<close>. A call passes \<open>None\<close> for an argument it leaves
  out. The resolution literals are kept as the rationals that they denote.
\<close>

definition generate_grid_default_rows :: int where
  "generate_grid_default_rows = 720"

definition generate_grid_default_cols :: int where
  "generate_grid_default_cols = 1440"

definition generate_grid_default_res :: rat where
  "generate_grid_default_res = 25 / 100"

definition validate_grid_default_res :: rat where
  "validate_grid_default_res = 25 / 100"

definition generate_grid_call ::
  "('g, 'm, 'f) geom_lib \<Rightarrow> 'f float_ops \<Rightarrow> 'g option list \<Rightarrow> int option \<Rightarrow> int option
     \<Rightarrow> 'f option \<Rightarrow> py_error + ndarray2" where
  "generate_grid_call lib fl world rows cols res =
     generate_grid lib fl world
       (case rows of None \<Rightarrow> generate_grid_default_rows | Some r \<Rightarrow> r)
       (case cols of None \<Rightarrow> generate_grid_default_cols | Some c \<Rightarrow> c)
       (case res of None \<Rightarrow> float_lit fl generate_grid_default_res | Some x \<Rightarrow> x)"

definition validate_grid_call :: "'f float_ops \<Rightarrow> ndarray2 \<Rightarrow> 'f option \<Rightarrow> py_error + bool" where
  "validate_grid_call fl grid res =
     validate_grid fl grid
       (case res of None \<Rightarrow> float_lit fl validate_grid_default_res | Some x \<Rightarrow> x)"

section \<open>The encoder chain\<close>

subsection \<open>\<open>bitpack\<close>\<close>

text \<open>One round of \<open>packed |= padded[bit::8] << (7 - bit)\<close>.\<close>

definition pack_step :: "u8 list \<Rightarrow> nat \<Rightarrow> u8 list \<Rightarrow> u8 list" where
  "pack_step padded b packed =
     map2 (OR) packed (map (push_bit (7 - b)) (slice_step padded b 8))"

definition bitpack :: "ndarray2 \<Rightarrow> u8 list" where
  "bitpack grid =
     (let flat = flatten grid;
          padded_len = (length flat + 7) div 8 * 8;
          padded = assign_prefix (zeros padded_len) flat;
          packed = zeros (padded_len div 8)
      in fold (pack_step padded) [0..<8] packed)"

subsection \<open>\<open>rle_encode\<close>\<close>

text \<open>
  The inner \<open>while\<close> loop, which extends the run that starts at \<open>i\<close>.
\<close>

function run_length :: "u8 list \<Rightarrow> nat \<Rightarrow> u8 \<Rightarrow> nat \<Rightarrow> nat" where
  "run_length data i v count =
     (if i + count < length data \<and> data ! (i + count) = v \<and> count < 255
      then run_length data i v (count + 1) else count)"
  by pat_completeness auto
termination
  by (relation "measure (\<lambda>(data, i, v, count). 255 - count)") auto

declare run_length.simps [simp del]

text \<open>
  The outer \<open>while i < len(data)\<close> loop. It advances by the run length, which is at least
  1, so it ends.
\<close>

function rle_loop :: "u8 list \<Rightarrow> nat \<Rightarrow> u8 list \<Rightarrow> u8 list" where
  "rle_loop data i result =
     (if i < length data
      then (let v = data ! i; count = run_length data i v 1
            in rle_loop data (i + count) (result @ [v, of_nat count]))
      else result)"
  by pat_completeness auto
termination
proof (relation "measure (\<lambda>(data, i, result). length data - i)")
  show "wf (measure (\<lambda>(data, i, result). length data - i))" by simp
next
  fix data :: "u8 list" and i :: nat and result :: "u8 list" and x xa
  assume a: "i < length data" "x = data ! i" "xa = run_length data i x 1"
  have "count \<le> run_length data i v count" for v count
  proof (induction data i v count rule: run_length.induct)
    case (1 data i v count)
    show ?case
    proof (cases "i + count < length data \<and> data ! (i + count) = v \<and> count < 255")
      case True
      with 1 have "count + 1 \<le> run_length data i v (count + 1)" by blast
      with True show ?thesis by (subst run_length.simps) simp
    next
      case False
      then show ?thesis by (subst run_length.simps) auto
    qed
  qed
  then have "1 \<le> run_length data i x 1" .
  with a show "((data, i + xa, result @ [x, of_nat xa]), (data, i, result))
       \<in> measure (\<lambda>(data, i, result). length data - i)" by simp
qed

declare rle_loop.simps [simp del]

definition rle_encode :: "u8 list \<Rightarrow> u8 list" where
  "rle_encode data = rle_loop data 0 []"

subsection \<open>\<open>base64.b64encode\<close>\<close>

text \<open>
  Modelled from the spec: \<open>base64.b64encode\<close> is the Python standard library's encoder,
  not part of the source. It is written here as the specification describes it: standard
  base64 of RFC 4648, alphabet with \<open>+\<close> and \<open>/\<close>, padding \<open>=\<close>, no line breaks.
\<close>

definition b64_alphabet :: string where
  "b64_alphabet = ''ABCDEFGHIJKLMNOPQRSTUVWXYZabcdefghijklmnopqrstuvwxyz0123456789+/''"

definition b64_char :: "nat \<Rightarrow> char" where
  "b64_char n = b64_alphabet ! (n mod 64)"

fun b64encode :: "u8 list \<Rightarrow> string" where
  "b64encode (a # b # c # rest) =
     (let n = unat a * 65536 + unat b * 256 + unat c
      in [b64_char (n div 262144), b64_char (n div 4096), b64_char (n div 64), b64_char n])
     @ b64encode rest"
| "b64encode [a, b] =
     (let n = unat a * 65536 + unat b * 256
      in [b64_char (n div 262144), b64_char (n div 4096), b64_char (n div 64), CHR ''=''])"
| "b64encode [a] =
     (let n = unat a * 65536
      in [b64_char (n div 262144), b64_char (n div 4096), CHR ''='', CHR ''=''])"
| "b64encode [] = []"

section \<open>\<open>main\<close>\<close>

definition main_rows :: int where
  "main_rows = 1800"

definition main_cols :: int where
  "main_cols = 3600"

definition main_res :: rat where
  "main_res = 1 / 10"

text \<open>
  The result of \<open>main\<close> is the line written to standard output; the result of the
  validation is ignored, as in the source.
\<close>

definition main ::
  "('g, 'm, 'f) geom_lib \<Rightarrow> 'f float_ops \<Rightarrow> 'g option list \<Rightarrow> py_error + string" where
  "main lib fl world =
     (let rows = main_rows; cols = main_cols; res = float_lit fl main_res
      in case generate_grid_call lib fl world (Some rows) (Some cols) (Some res) of
           Inl e \<Rightarrow> Inl e
         | Inr grid \<Rightarrow>
             (case validate_grid_call fl grid (Some res) of
                Inl e \<Rightarrow> Inl e
              | Inr _ \<Rightarrow>
                  (let packed = bitpack grid;
                       rle = rle_encode packed;
                       b64 = b64encode rle
                   in Inr (''const LAND_BITMAP_RLE_B64 = '' @ [CHR 0x22] @ b64
                             @ [CHR 0x22] @ '';''))))"

section \<open>The inverse transforms and reference descriptions of the specification\<close>

text \<open>
  The source has no decoder; the inverses follow the words of the specification, to be
  compared with the source's encoders. \<open>rle_decode\<close> expands each (value, count) pair
  into count copies of the value, in order; \<open>unpack\<close> reads the bits of each byte most
  significant first, one cell per bit.
\<close>

fun rle_decode :: "u8 list \<Rightarrow> u8 list" where
  "rle_decode (v # c # rest) = replicate (unat c) v @ rle_decode rest"
| "rle_decode _ = []"

definition unpack :: "u8 list \<Rightarrow> u8 list" where
  "unpack bs = concat (map (\<lambda>b. map (\<lambda>k. if bit b (7 - k) then 1 else 0) [0..<8]) bs)"

text \<open>
  The specification's description of the run-length encoding: the maximal runs of equal
  bytes, each emitted as (value, count), a run longer than 255 as consecutive pairs of the
  same value with counts of at most 255.
\<close>

function runs :: "u8 list \<Rightarrow> (u8 \<times> nat) list" where
  "runs [] = []"
| "runs (x # xs) =
     (x, Suc (length (takeWhile (\<lambda>y. y = x) xs))) # runs (dropWhile (\<lambda>y. y = x) xs)"
  by pat_completeness auto
termination
  by (relation "measure length") (auto simp: less_Suc_eq_le length_dropWhile_le)

function split_run :: "u8 \<Rightarrow> nat \<Rightarrow> u8 list" where
  "split_run v n = (if 255 < n then [v, 255] @ split_run v (n - 255) else [v, of_nat n])"
  by pat_completeness auto
termination
  by (relation "measure snd") auto

declare split_run.simps [simp del]

definition rle_spec :: "u8 list \<Rightarrow> u8 list" where
  "rle_spec data = concat (map (\<lambda>(v, n). split_run v n) (runs data))"

text \<open>
  The specification's sub-sample test: the point with
  \<open>lat = 90.0 - (row + y_offset) * res\<close> and \<open>lng = -180.0 + (col + x_offset) * res\<close>
  lies in the merged geometry.
\<close>

definition sample_hit ::
  "('g, 'm, 'f) geom_lib \<Rightarrow> 'f float_ops \<Rightarrow> 'g option list \<Rightarrow> 'f \<Rightarrow> int \<Rightarrow> int \<Rightarrow> rat \<Rightarrow> rat
     \<Rightarrow> bool"
where
  "sample_hit lib fl world res row col y_offset x_offset \<longleftrightarrow>
     prep_contains lib (unary_union lib (land_geoms world))
       (fadd fl (fneg fl (float_lit fl 180))
          (fmul fl (fadd fl (float_of_int fl col) (float_lit fl x_offset)) res),
        fsub fl (float_lit fl 90)
          (fmul fl (fadd fl (float_of_int fl row) (float_lit fl y_offset)) res))"

section \<open>A concrete interpretation of the parameters\<close>

text \<open>
  For evaluation at concrete inputs: exact rational arithmetic in place of the floats,
  and a geometry engine whose geometries are axis-aligned boxes \<open>(x0, y0, x1, y1)\<close>,
  merged into the list of them.
\<close>

definition exact_ops :: "rat float_ops" where
  "exact_ops = \<lparr>float_lit = (\<lambda>q. q), float_of_int = of_int,
     fadd = (+), fsub = (-), fmul = (*), fneg = uminus,
     fdiv = (\<lambda>a b. if b = 0 then None else Some (a / b)),
     ftrunc = (\<lambda>q. Truncated (if 0 \<le> q then \<lfloor>q\<rfloor> else \<lceil>q\<rceil>))\<rparr>"

type_synonym box = "rat \<times> rat \<times> rat \<times> rat"

definition box_lib :: "(box, box list, rat) geom_lib" where
  "box_lib = \<lparr>unary_union = (\<lambda>gs. gs),
     prep_contains = (\<lambda>m (x, y).
       list_ex (\<lambda>(x0, y0, x1, y1). x0 \<le> x \<and> x \<le> x1 \<and> y0 \<le> y \<and> y \<le> y1) m)\<rparr>"

text \<open>
  Concrete inputs. \<open>demo_grid\<close> is a 2 by 5 grid whose ten cells do not fill the second
  byte; \<open>water_grid\<close> has 16 water cells; \<open>spot_grid\<close> has land in cell (0, 1) only;
  \<open>coast_world\<close> is a dataset with one null entry and one small box that contains, of the
  nine sample points of cell (0, 0) at resolution 1, only the last one tested.
\<close>

definition demo_grid :: ndarray2 where
  "demo_grid = \<lparr>shape0 = 2, shape1 = 5, buffer = [1, 0, 1, 0, 1, 0, 1, 0, 1, 1]\<rparr>"

definition water_grid :: ndarray2 where
  "water_grid = \<lparr>shape0 = 2, shape1 = 8, buffer = replicate 16 0\<rparr>"

definition spot_grid :: ndarray2 where
  "spot_grid = \<lparr>shape0 = 2, shape1 = 2, buffer = [0, 1, 0, 0]\<rparr>"

definition coast_world :: "box option list" where
  "coast_world = [None, Some (- (1792 / 10), 891 / 10, - (1791 / 10), 892 / 10)]"

section \<open>Auxiliary views of the loops\<close>

text \<open>The run-length encoder as a recursion on the remaining input.\<close>

definition run_len :: "u8 \<Rightarrow> u8 list \<Rightarrow> nat" where
  "run_len x xs = min 255 (Suc (length (takeWhile (\<lambda>y. y = x) xs)))"

function enc :: "u8 list \<Rightarrow> u8 list" where
  "enc [] = []"
| "enc (x # xs) = [x, of_nat (run_len x xs)] @ enc (drop (run_len x xs - 1) xs)"
  by pat_completeness auto
termination
  by (relation "measure length") auto

declare enc.simps(2) [simp del]

text \<open>The count bytes of a sequence of pairs.\<close>

fun count_bytes :: "u8 list \<Rightarrow> nat list" where
  "count_bytes (v # c # rest) = unat c # count_bytes rest"
| "count_bytes _ = []"

text \<open>One packed byte, from the eight padded cells that it covers.\<close>

definition pack_byte :: "(nat \<Rightarrow> u8) \<Rightarrow> u8" where
  "pack_byte f = fold (\<lambda>b acc. acc OR push_bit (7 - b) (f b)) [0..<8] 0"

definition padded_of :: "ndarray2 \<Rightarrow> u8 list" where
  "padded_of grid =
     assign_prefix (zeros ((length (flatten grid) + 7) div 8 * 8)) (flatten grid)"

definition clamp_index :: "nat \<Rightarrow> int \<Rightarrow> int" where
  "clamp_index n i = max 0 (min (int n - 1) i)"

section \<open>Properties of the run-length encoder\<close>

lemma run_length_ge: "count \<le> run_length data i v count"
proof (induction data i v count rule: run_length.induct)
  case (1 data i v count)
  show ?case
  proof (cases "i + count < length data \<and> data ! (i + count) = v \<and> count < 255")
    case True
    with 1 have "count + 1 \<le> run_length data i v (count + 1)" by blast
    with True show ?thesis by (subst run_length.simps) simp
  next
    case False
    then show ?thesis by (subst run_length.simps) auto
  qed
qed

lemma run_length_char:
  "run_length data i v c =
     (if 255 \<le> c then c
      else min 255 (c + length (takeWhile (\<lambda>y. y = v) (drop (i + c) data))))"
proof (induction data i v c rule: run_length.induct)
  case (1 data i v count)
  show ?case
  proof (cases "i + count < length data \<and> data ! (i + count) = v \<and> count < 255")
    case True
    then have d: "drop (i + count) data = v # drop (i + (count + 1)) data"
      by (simp add: Cons_nth_drop_Suc [symmetric])
    have "run_length data i v count = run_length data i v (count + 1)"
      using True by (subst run_length.simps) simp
    also have "\<dots> = (if 255 \<le> count + 1 then count + 1
        else min 255 (count + 1 + length (takeWhile (\<lambda>y. y = v) (drop (i + (count + 1)) data))))"
      using 1 True by blast
    finally show ?thesis using True by (simp add: d)
  next
    case False
    have r: "run_length data i v count = count"
      using False by (subst run_length.simps) auto
    show ?thesis
    proof (cases "255 \<le> count")
      case True
      then show ?thesis by (simp add: r)
    next
      case c: False
      show ?thesis
      proof (cases "i + count < length data")
        case True
        with False c have ne: "data ! (i + count) \<noteq> v" by auto
        from True have "drop (i + count) data = data ! (i + count) # drop (Suc (i + count)) data"
          by (simp add: Cons_nth_drop_Suc)
        with ne c show ?thesis by (simp add: r)
      next
        case False
        with c show ?thesis by (simp add: r)
      qed
    qed
  qed
qed

lemma run_len_ge1: "1 \<le> run_len x xs" and run_len_le: "run_len x xs \<le> 255"
  by (simp_all add: run_len_def)

lemma run_length_run_len:
  assumes "i < length data"
  shows "run_length data i (data ! i) 1 = run_len (data ! i) (drop (Suc i) data)"
  by (simp add: run_length_char run_len_def)

lemma rle_loop_enc: "rle_loop data i result = result @ enc (drop i data)"
proof (induction data i result rule: rle_loop.induct)
  case (1 data i result)
  show ?case
  proof (cases "i < length data")
    case False
    then show ?thesis by (simp add: rle_loop.simps)
  next
    case True
    define v where "v = data ! i"
    define n where "n = run_length data i v 1"
    have n1: "1 \<le> n" unfolding n_def by (rule run_length_ge)
    have nr: "n = run_len v (drop (Suc i) data)"
      unfolding n_def v_def using True by (rule run_length_run_len)
    have L: "rle_loop data i result = rle_loop data (i + n) (result @ [v, of_nat n])"
      using True by (subst rle_loop.simps) (simp add: v_def n_def Let_def)
    have IH: "rle_loop data (i + n) (result @ [v, of_nat n])
        = (result @ [v, of_nat n]) @ enc (drop (i + n) data)"
      using 1 [OF True v_def n_def] .
    have d: "drop i data = v # drop (Suc i) data"
      using True by (simp add: v_def Cons_nth_drop_Suc)
    have dd: "drop (n - 1) (drop (Suc i) data) = drop (i + n) data"
      using n1 by (simp add: add.commute)
    have "enc (drop i data) = [v, of_nat n] @ enc (drop (i + n) data)"
      by (simp only: d enc.simps(2) nr [symmetric] dd)
    with L IH show ?thesis by simp
  qed
qed

lemma rle_encode_enc: "rle_encode data = enc data"
  by (simp add: rle_encode_def rle_loop_enc)

lemma takeWhile_run:
  assumes "rest = [] \<or> hd rest \<noteq> x"
  shows "takeWhile (\<lambda>y. y = x) (replicate m x @ rest) = replicate m x"
  using assms by (induction m) (auto simp: takeWhile_eq_Nil_iff)

lemma enc_run:
  "rest = [] \<or> hd rest \<noteq> x \<Longrightarrow> 1 \<le> k \<Longrightarrow>
     enc (replicate k x @ rest) = split_run x k @ enc rest"
proof (induction x k rule: split_run.induct)
  case (1 v n)
  from 1(3) obtain m where m: "n = Suc m" by (cases n) auto
  have tw: "takeWhile (\<lambda>y. y = v) (replicate m v @ rest) = replicate m v"
    using 1(2) by (rule takeWhile_run)
  have rl: "run_len v (replicate m v @ rest) = min 255 n"
    by (simp add: run_len_def tw m)
  have e: "enc (replicate n v @ rest)
      = [v, of_nat (min 255 n)] @ enc (drop (min 255 n - 1) (replicate m v @ rest))"
    by (simp add: m enc.simps(2) rl [unfolded m])
  show ?case
  proof (cases "255 < n")
    case True
    then have mn: "min 255 n = 255" by simp
    from True have d: "drop (255 - 1) (replicate m v @ rest) = replicate (n - 255) v @ rest"
      by (simp add: m)
    have "enc (replicate (n - 255) v @ rest) = split_run v (n - 255) @ enc rest"
      using 1(1) [OF True 1(2)] True by simp
    moreover have "enc (replicate n v @ rest) = [v, of_nat 255] @ enc (replicate (n - 255) v @ rest)"
      by (simp only: e mn d)
    ultimately show ?thesis using True
      by (subst split_run.simps) simp
  next
    case False
    then have mn: "min 255 n = n" by simp
    have d: "drop (n - 1) (replicate m v @ rest) = rest" by (simp add: m)
    have "enc (replicate n v @ rest) = [v, of_nat n] @ enc rest"
      by (simp only: e mn d)
    with False show ?thesis
      by (subst split_run.simps) simp
  qed
qed

lemma list_run_decomp:
  "x # xs = replicate (Suc (length (takeWhile (\<lambda>y. y = x) xs))) x @ dropWhile (\<lambda>y. y = x) xs"
proof -
  have "takeWhile (\<lambda>y. y = x) xs = replicate (length (takeWhile (\<lambda>y. y = x) xs)) x"
    by (rule replicate_length_same [symmetric]) (auto dest: set_takeWhileD)
  then have "xs = replicate (length (takeWhile (\<lambda>y. y = x) xs)) x @ dropWhile (\<lambda>y. y = x) xs"
    by (metis takeWhile_dropWhile_id)
  then show ?thesis by simp
qed

lemma dropWhile_boundary:
  "dropWhile (\<lambda>y. y = x) xs = [] \<or> hd (dropWhile (\<lambda>y. y = x) xs) \<noteq> x"
  using hd_dropWhile [of "\<lambda>y. y = x" xs] by blast

lemma enc_Cons_run:
  "enc (x # xs) = split_run x (Suc (length (takeWhile (\<lambda>y. y = x) xs)))
      @ enc (dropWhile (\<lambda>y. y = x) xs)"
proof -
  have "enc (x # xs) = enc (replicate (Suc (length (takeWhile (\<lambda>y. y = x) xs))) x
        @ dropWhile (\<lambda>y. y = x) xs)"
    using list_run_decomp [of x xs] by simp
  also have "\<dots> = split_run x (Suc (length (takeWhile (\<lambda>y. y = x) xs)))
      @ enc (dropWhile (\<lambda>y. y = x) xs)"
    by (rule enc_run [OF dropWhile_boundary]) simp
  finally show ?thesis .
qed

lemma enc_rle_spec: "enc data = rle_spec data"
proof (induction data rule: runs.induct)
  case 1
  show ?case by (simp add: rle_spec_def)
next
  case (2 x xs)
  then show ?case by (simp add: enc_Cons_run rle_spec_def)
qed

lemma rle_decode_split_run:
  "1 \<le> n \<Longrightarrow> rle_decode (split_run v n @ rest) = replicate n v @ rle_decode rest"
proof (induction v n rule: split_run.induct)
  case (1 v n)
  show ?case
  proof (cases "255 < n")
    case True
    with 1 have "rle_decode (split_run v (n - 255) @ rest) = replicate (n - 255) v @ rle_decode rest"
      by simp
    moreover have "replicate 255 v @ replicate (n - 255) v = replicate n v"
      using True by (simp add: replicate_add [symmetric])
    ultimately show ?thesis using True
      by (subst split_run.simps) (simp del: replicate_append_same)
  next
    case False
    then have "unat (of_nat n :: u8) = n" by (simp add: unsigned_of_nat take_bit_nat_eq_self)
    with False show ?thesis by (subst split_run.simps) simp
  qed
qed

lemma rle_decode_enc: "rle_decode (enc data) = data"
proof (induction data rule: runs.induct)
  case 1
  show ?case by simp
next
  case (2 x xs)
  have "rle_decode (enc (x # xs))
      = replicate (Suc (length (takeWhile (\<lambda>y. y = x) xs))) x @ dropWhile (\<lambda>y. y = x) xs"
    by (simp only: enc_Cons_run) (simp add: rle_decode_split_run 2 del: replicate.simps)
  then show ?case using list_run_decomp [of x xs] by simp
qed

lemma count_bytes_nth:
  "even (length E) \<Longrightarrow> count_bytes E = map (\<lambda>k. unat (E ! (2 * k + 1))) [0..<length E div 2]"
proof (induction E rule: count_bytes.induct)
  case (1 v c rest)
  then have IH: "count_bytes rest = map (\<lambda>k. unat (rest ! (2 * k + 1))) [0..<length rest div 2]"
    by simp
  have "[0..<length (v # c # rest) div 2] = 0 # map Suc [0..<length rest div 2]"
    by (simp add: upt_conv_Cons map_Suc_upt del: upt_Suc)
  then show ?case by (simp add: IH comp_def del: upt_Suc)
qed simp_all

lemma split_run_even: "even (length (split_run v n))"
  by (induction v n rule: split_run.induct) (subst split_run.simps, simp)

lemma count_bytes_split_run:
  "count_bytes (split_run v n @ rest) = count_bytes (split_run v n) @ count_bytes rest"
  by (induction v n rule: split_run.induct) (subst (1 2) split_run.simps, simp)

lemma count_bytes_split_run_sum: "sum_list (count_bytes (split_run v n)) = n"
proof (induction v n rule: split_run.induct)
  case (1 v n)
  show ?case
  proof (cases "255 < n")
    case True
    with 1 show ?thesis by (subst split_run.simps) simp
  next
    case False
    then have "unat (of_nat n :: u8) = n" by (simp add: unsigned_of_nat take_bit_nat_eq_self)
    with False show ?thesis by (subst split_run.simps) simp
  qed
qed

lemma count_bytes_split_run_range:
  "1 \<le> n \<Longrightarrow> c \<in> set (count_bytes (split_run v n)) \<Longrightarrow> 1 \<le> c \<and> c \<le> 255"
proof (induction v n rule: split_run.induct)
  case (1 v n)
  show ?case
  proof (cases "255 < n")
    case True
    with 1 show ?thesis by (subst (asm) (2) split_run.simps) auto
  next
    case False
    then have "unat (of_nat n :: u8) = n" by (simp add: unsigned_of_nat take_bit_nat_eq_self)
    with False 1(2,3) show ?thesis by (subst (asm) split_run.simps) auto
  qed
qed

lemma enc_even: "even (length (enc data))"
  by (induction data rule: runs.induct) (simp_all add: enc_Cons_run split_run_even)

lemma enc_count_sum: "sum_list (count_bytes (enc data)) = length data"
proof (induction data rule: runs.induct)
  case 1
  show ?case by simp
next
  case (2 x xs)
  have "length (x # xs) = Suc (length (takeWhile (\<lambda>y. y = x) xs)) + length (dropWhile (\<lambda>y. y = x) xs)"
    by (subst list_run_decomp [of x xs]) (simp del: replicate.simps)
  with 2 show ?case
    by (simp add: enc_Cons_run count_bytes_split_run count_bytes_split_run_sum)
qed

lemma enc_count_range: "c \<in> set (count_bytes (enc data)) \<Longrightarrow> 1 \<le> c \<and> c \<le> 255"
proof (induction data rule: runs.induct)
  case 1
  then show ?case by simp
next
  case (2 x xs)
  from 2(2) have "c \<in> set (count_bytes (split_run x (Suc (length (takeWhile (\<lambda>y. y = x) xs)))))
      \<or> c \<in> set (count_bytes (enc (dropWhile (\<lambda>y. y = x) xs)))"
    by (simp add: enc_Cons_run count_bytes_split_run)
  then show ?case
    using 2(1) count_bytes_split_run_range [of "Suc (length (takeWhile (\<lambda>y. y = x) xs))" c x]
    by auto
qed



lemma rle_encode_example: "rle_encode [1, 1, 2] = [1, 2, 2, 1]"
  by code_simp

text \<open>
  Claim C5. For every byte sequence \<open>B\<close>, expanding each (value, count) pair of
  \<open>rle_encode B\<close> into count copies of the value, in order, gives back exactly \<open>B\<close>;
  and \<open>rle_encode\<close> of the empty sequence is the empty sequence.
\<close>

theorem rle_decode_rle_encode:
  "rle_decode (rle_encode B) = B \<and> rle_encode [] = []"
  by (simp add: rle_encode_enc rle_decode_enc)

theorem rle_decode_rle_encode_witness:
  "rle_decode [1, 2, 2, 1] = [1, 1, 2]"
  using rle_decode_rle_encode [of "[1, 1, 2]"] by (simp add: rle_encode_example)

text \<open>
  Claim C7. \<open>rle_encode\<close> emits one (value, count) pair per maximal run of identical
  bytes, with the count capped at 255 and a longer run split into consecutive pairs of the
  same value; so it agrees with \<open>rle_spec\<close> on every input, and 300 copies of any byte
  \<open>v\<close> encode as the four bytes \<open>v, 255, v, 45\<close>.
\<close>

theorem rle_encode_maximal_runs:
  "rle_encode data = rle_spec data \<and> rle_encode (replicate 300 v) = [v, 255, v, 45]"
proof -
  have "enc (replicate 300 v @ []) = split_run v 300 @ enc []"
    by (rule enc_run) simp_all
  moreover have "split_run v 300 = [v, 255, v, 45]"
    by (simp add: split_run.simps)
  ultimately have "enc (replicate 300 v) = [v, 255, v, 45]"
    by simp
  moreover have "enc data = rle_spec data"
    by (rule enc_rle_spec)
  ultimately show ?thesis
    by (simp only: rle_encode_enc simp_thms)
qed

theorem rle_encode_maximal_runs_witness:
  "rle_spec [1, 1, 2] = [1, 2, 2, 1] \<and> rle_encode (replicate 300 7) = [7, 255, 7, 45]"
  using rle_encode_maximal_runs [of "[1, 1, 2]" 7] by (simp add: rle_encode_example)

text \<open>
  Claim C10. For every byte sequence \<open>B\<close>, the output of \<open>rle_encode\<close> has even length,
  every count byte (the second byte of each pair) lies between 1 and 255, and the count
  bytes sum to the length of \<open>B\<close>.
\<close>

theorem rle_encode_counts:
  "even (length (rle_encode B)) \<and>
   (\<forall>k < length (rle_encode B) div 2.
      1 \<le> unat (rle_encode B ! (2 * k + 1)) \<and> unat (rle_encode B ! (2 * k + 1)) \<le> 255) \<and>
   (\<Sum>k < length (rle_encode B) div 2. unat (rle_encode B ! (2 * k + 1))) = length B"
proof -
  let ?E = "rle_encode B"
  have ev: "even (length ?E)" by (simp add: rle_encode_enc enc_even)
  have cb: "count_bytes ?E = map (\<lambda>k. unat (?E ! (2 * k + 1))) [0..<length ?E div 2]"
    using ev by (rule count_bytes_nth)
  have rng: "\<forall>k < length ?E div 2. 1 \<le> unat (?E ! (2 * k + 1)) \<and> unat (?E ! (2 * k + 1)) \<le> 255"
  proof (intro allI impI)
    fix k assume "k < length ?E div 2"
    then have "unat (?E ! (2 * k + 1)) \<in> set (count_bytes ?E)"
      unfolding cb by auto
    then show "1 \<le> unat (?E ! (2 * k + 1)) \<and> unat (?E ! (2 * k + 1)) \<le> 255"
      unfolding rle_encode_enc by (rule enc_count_range)
  qed
  have "sum_list (count_bytes ?E) = length B" by (simp add: rle_encode_enc enc_count_sum)
  then have "(\<Sum>k < length ?E div 2. unat (?E ! (2 * k + 1))) = length B"
    unfolding cb by (simp add: interv_sum_list_conv_sum_set_nat atLeast0LessThan)
  with ev rng show ?thesis by blast
qed

theorem rle_encode_counts_witness:
  "even (length (rle_encode [1, 1, 2])) \<and>
   1 \<le> unat (rle_encode [1, 1, 2] ! 1) \<and> unat (rle_encode [1, 1, 2] ! 1) \<le> 255 \<and>
   1 \<le> unat (rle_encode [1, 1, 2] ! 3) \<and> unat (rle_encode [1, 1, 2] ! 3) \<le> 255 \<and>
   unat (rle_encode [1, 1, 2] ! 1) + unat (rle_encode [1, 1, 2] ! 3) = length [1 :: u8, 1, 2]"
  using rle_encode_counts [of "[1, 1, 2]"]
  by (simp add: rle_encode_example)


section \<open>Properties of the bit-packer\<close>

lemma upt8: "[0..<8] = [0, 1, 2, 3, 4, 5, 6, 7 :: nat]"
  by (simp add: upt_rec)

lemma bit01: "c = 0 \<or> c = 1 \<Longrightarrow> bit (c :: u8) n \<longleftrightarrow> c = 1 \<and> n = 0"
  by (auto simp: bit_1_iff)

lemma less8_cases: "j < 8 \<Longrightarrow> j = 0 \<or> j = 1 \<or> j = 2 \<or> j = 3 \<or> j = 4 \<or> j = 5 \<or> j = 6 \<or> j = (7::nat)"
  by arith

lemma pack_byte_bit:
  assumes "\<forall>b < 8. f b = 0 \<or> f b = 1" and "j < 8"
  shows "bit (pack_byte f) (7 - j) \<longleftrightarrow> f j = 1"
proof -
  have b: "\<And>b n. b < 8 \<Longrightarrow> bit (f b) n \<longleftrightarrow> f b = 1 \<and> n = 0"
    using assms(1) bit01 by blast
  have e: "pack_byte f = push_bit 7 (f 0) OR push_bit 6 (f 1) OR push_bit 5 (f 2) OR push_bit 4 (f 3)
      OR push_bit 3 (f 4) OR push_bit 2 (f 5) OR push_bit 1 (f 6) OR f 7"
    by (simp add: pack_byte_def upt8 ac_simps)
  from less8_cases [OF assms(2)] show ?thesis
    by (elim disjE) (simp_all add: e bit_or_iff bit_push_bit_iff b del: push_bit_of_Suc_0 push_bit_Suc One_nat_def)
qed

lemma slice_step8_length:
  assumes "8 dvd length xs" and "b < 8"
  shows "length (slice_step xs b 8) = length xs div 8"
proof -
  from assms(1) obtain m where m: "length xs = 8 * m" by (auto simp: dvd_def)
  have "(8 * m - b + 8 - 1) div 8 = m" using assms(2) by (cases m) auto
  then show ?thesis by (simp add: slice_step_def m)
qed

lemma slice_step_nth:
  "k < length (slice_step xs b s) \<Longrightarrow> slice_step xs b s ! k = xs ! (b + k * s)"
  by (simp add: slice_step_def)

lemma pack_step_length:
  assumes "8 dvd length padded" and "b < 8" and "length packed = length padded div 8"
  shows "length (pack_step padded b packed) = length padded div 8"
  using assms by (simp add: pack_step_def slice_step8_length)

lemma pack_step_nth:
  assumes "8 dvd length padded" and "b < 8" and "length packed = length padded div 8"
    and "k < length padded div 8"
  shows "pack_step padded b packed ! k = packed ! k OR push_bit (7 - b) (padded ! (b + k * 8))"
  using assms by (simp add: pack_step_def slice_step8_length slice_step_nth)

lemma fold_pack_step:
  assumes "8 dvd length padded"
  shows "\<forall>b \<in> set bs. b < 8 \<Longrightarrow> length packed = length padded div 8 \<Longrightarrow>
    length (fold (pack_step padded) bs packed) = length padded div 8 \<and>
    (\<forall>k < length padded div 8.
       fold (pack_step padded) bs packed ! k
         = fold (\<lambda>b acc. acc OR push_bit (7 - b) (padded ! (b + k * 8))) bs (packed ! k))"
proof (induction bs arbitrary: packed)
  case Nil
  then show ?case by simp
next
  case (Cons b bs)
  from Cons.prems have b: "b < 8" and bs: "\<forall>b \<in> set bs. b < 8" by auto
  have len: "length (pack_step padded b packed) = length padded div 8"
    using assms b Cons.prems(2) by (rule pack_step_length)
  from Cons.IH [OF bs len] show ?case
    using pack_step_nth [OF assms b Cons.prems(2)] by simp
qed

lemma padded_of_length: "length (padded_of grid) = (length (flatten grid) + 7) div 8 * 8"
proof -
  have "length (flatten grid) \<le> (length (flatten grid) + 7) div 8 * 8" by arith
  then show ?thesis by (simp add: padded_of_def assign_prefix_def zeros_def)
qed

lemma padded_of_nth:
  "i < length (padded_of grid) \<Longrightarrow>
   padded_of grid ! i = (if i < length (flatten grid) then flatten grid ! i else 0)"
  by (auto simp: padded_of_def assign_prefix_def zeros_def nth_append)

lemma bitpack_fold:
  "bitpack grid = fold (pack_step (padded_of grid)) [0..<8] (zeros (length (padded_of grid) div 8))"
  by (simp add: bitpack_def Let_def padded_of_def [symmetric] padded_of_length)

lemma bitpack_length: "length (bitpack grid) = (length (flatten grid) + 7) div 8"
proof -
  have "8 dvd length (padded_of grid)" by (simp add: padded_of_length)
  from fold_pack_step [OF this, of "[0..<8]" "zeros (length (padded_of grid) div 8)"]
  show ?thesis by (simp add: bitpack_fold zeros_def padded_of_length)
qed

lemma bitpack_nth:
  assumes "k < length (bitpack grid)"
  shows "bitpack grid ! k = pack_byte (\<lambda>b. padded_of grid ! (b + k * 8))"
proof -
  have d: "8 dvd length (padded_of grid)" by (simp add: padded_of_length)
  have k: "k < length (padded_of grid) div 8"
    using assms by (simp add: bitpack_length padded_of_length)
  from fold_pack_step [OF d, of "[0..<8]" "zeros (length (padded_of grid) div 8)"] k
  show ?thesis by (simp add: bitpack_fold zeros_def pack_byte_def)
qed

lemma bitpack_bit:
  assumes "is_boolean grid" and "i < 8 * length (bitpack grid)"
  shows "bit (bitpack grid ! (i div 8)) (7 - i mod 8)
     \<longleftrightarrow> i < length (flatten grid) \<and> flatten grid ! i = 1"
proof -
  let ?k = "i div 8"
  have k: "?k < length (bitpack grid)" using assms(2) by simp
  have plen: "length (padded_of grid) = 8 * length (bitpack grid)"
    by (simp add: padded_of_length bitpack_length)
  have bool: "\<forall>c \<in> set (flatten grid). c = 0 \<or> c = 1"
    using assms(1) by (simp add: is_boolean_def flatten_def list_all_iff)
  have pb: "\<forall>b < 8. padded_of grid ! (b + ?k * 8) = 0 \<or> padded_of grid ! (b + ?k * 8) = 1"
  proof (intro allI impI)
    fix b :: nat assume "b < 8"
    with k have "b + ?k * 8 < length (padded_of grid)" unfolding plen by arith
    then show "padded_of grid ! (b + ?k * 8) = 0 \<or> padded_of grid ! (b + ?k * 8) = 1"
      using bool by (auto simp: padded_of_nth)
  qed
  have "bit (bitpack grid ! ?k) (7 - i mod 8) \<longleftrightarrow> padded_of grid ! (i mod 8 + ?k * 8) = 1"
    unfolding bitpack_nth [OF k] by (rule pack_byte_bit [OF pb]) simp
  moreover have "i mod 8 + ?k * 8 = i" by simp
  moreover have "i < length (padded_of grid)" using assms(2) by (simp add: plen)
  ultimately show ?thesis by (simp add: padded_of_nth)
qed

lemma unpack_length: "length (unpack bs) = 8 * length bs"
  by (induction bs) (simp_all add: unpack_def)

lemma unpack_nth:
  "i < 8 * length bs \<Longrightarrow> unpack bs ! i = (if bit (bs ! (i div 8)) (7 - i mod 8) then 1 else 0)"
proof (induction bs arbitrary: i)
  case Nil
  then show ?case by simp
next
  case (Cons b bs)
  have u: "unpack (b # bs) = map (\<lambda>k. if bit b (7 - k) then 1 else 0) [0..<8] @ unpack bs"
    by (simp add: unpack_def)
  show ?case
  proof (cases "i < 8")
    case True
    then show ?thesis by (simp add: u nth_append del: upt_Suc)
  next
    case False
    then have "i - 8 < 8 * length bs" using Cons.prems by simp
    moreover from False have "i div 8 = Suc ((i - 8) div 8)" and "i mod 8 = (i - 8) mod 8"
      by (simp_all add: le_div_geq le_mod_geq)
    ultimately show ?thesis using Cons.IH [of "i - 8"] False
      by (simp add: u nth_append del: upt_Suc)
  qed
qed

lemma ceil8: "nat \<lceil>(of_nat n :: rat) / 8\<rceil> = (n + 7) div 8"
proof -
  have "\<lceil>(of_int (int n) :: rat) / of_int 8\<rceil> = - (- int n div 8)"
    by (rule ceiling_divide_eq_div)
  moreover have "- (- int n div 8) = int ((n + 7) div 8)" by (simp add: zdiv_int)
  ultimately show ?thesis by simp
qed


lemma bitpack_demo_grid: "bitpack demo_grid = [170, 192]"
  by code_simp

text \<open>
  Claim C2. \<open>bitpack\<close> maps a boolean grid of \<open>rows * cols\<close> cells to
  \<open>ceil (rows * cols / 8)\<close> bytes; the \<open>i\<close>-th cell in row-major order is bit
  \<open>7 - i mod 8\<close> of byte \<open>i div 8\<close> (most significant bit first), and every padding bit
  after the last cell is 0.
\<close>

theorem bitpack_layout:
  assumes "well_shaped grid" and "is_boolean grid"
  shows "length (bitpack grid) = nat \<lceil>(of_nat (shape0 grid * shape1 grid) :: rat) / 8\<rceil> \<and>
    (\<forall>i < shape0 grid * shape1 grid.
       bit (bitpack grid ! (i div 8)) (7 - i mod 8) \<longleftrightarrow> flatten grid ! i = 1) \<and>
    (\<forall>i. shape0 grid * shape1 grid \<le> i \<and> i < 8 * length (bitpack grid) \<longrightarrow>
       \<not> bit (bitpack grid ! (i div 8)) (7 - i mod 8))"
proof -
  have n: "length (flatten grid) = shape0 grid * shape1 grid"
    using assms(1) by (simp add: well_shaped_def flatten_def)
  have len: "length (bitpack grid) = (shape0 grid * shape1 grid + 7) div 8"
    by (simp add: bitpack_length n)
  have cells: "\<forall>i < shape0 grid * shape1 grid.
       bit (bitpack grid ! (i div 8)) (7 - i mod 8) \<longleftrightarrow> flatten grid ! i = 1"
  proof (intro allI impI)
    fix i assume i: "i < shape0 grid * shape1 grid"
    then have "i < 8 * length (bitpack grid)" unfolding len by arith
    from bitpack_bit [OF assms(2) this] i
    show "bit (bitpack grid ! (i div 8)) (7 - i mod 8) \<longleftrightarrow> flatten grid ! i = 1"
      by (simp add: n)
  qed
  have pad: "\<forall>i. shape0 grid * shape1 grid \<le> i \<and> i < 8 * length (bitpack grid) \<longrightarrow>
       \<not> bit (bitpack grid ! (i div 8)) (7 - i mod 8)"
  proof (intro allI impI)
    fix i assume i: "shape0 grid * shape1 grid \<le> i \<and> i < 8 * length (bitpack grid)"
    then have "i < 8 * length (bitpack grid)" ..
    from bitpack_bit [OF assms(2) this] i
    show "\<not> bit (bitpack grid ! (i div 8)) (7 - i mod 8)"
      by (simp add: n)
  qed
  from len cells pad show ?thesis by (simp only: ceil8 simp_thms)
qed

theorem bitpack_layout_witness:
  "well_shaped demo_grid \<and> is_boolean demo_grid \<and>
   length (bitpack demo_grid) = 2 \<and>
   bit (bitpack demo_grid ! 1) 7 \<and> flatten demo_grid ! 8 = 1 \<and>
   \<not> bit (bitpack demo_grid ! 1) 5"
proof -
  have w: "well_shaped demo_grid" and b: "is_boolean demo_grid"
    by (simp_all add: demo_grid_def well_shaped_def is_boolean_def)
  have f: "flatten demo_grid ! 8 = 1" by (simp add: flatten_def demo_grid_def)
  have s: "shape0 demo_grid * shape1 demo_grid = 10" by (simp add: demo_grid_def)
  from bitpack_layout [OF w b] have
    "length (bitpack demo_grid) = nat \<lceil>(of_nat 10 :: rat) / 8\<rceil>"
    "8 < (10::nat) \<longrightarrow> (bit (bitpack demo_grid ! (8 div 8)) (7 - 8 mod 8) \<longleftrightarrow> flatten demo_grid ! 8 = 1)"
    "10 \<le> (10::nat) \<and> 10 < 8 * length (bitpack demo_grid) \<longrightarrow>
       \<not> bit (bitpack demo_grid ! (10 div 8)) (7 - 10 mod 8)"
    unfolding s by blast+
  with w b f show ?thesis by (simp add: bitpack_demo_grid)
qed

text \<open>
  Claim C6. For every boolean grid, unpacking the output of \<open>bitpack\<close> (the bits of each
  byte, most significant first) gives back the grid at every index below \<open>rows * cols\<close>.
\<close>

theorem unpack_bitpack:
  assumes "well_shaped grid" and "is_boolean grid"
  shows "take (shape0 grid * shape1 grid) (unpack (bitpack grid)) = flatten grid"
proof (rule nth_equalityI)
  have n: "length (flatten grid) = shape0 grid * shape1 grid"
    using assms(1) by (simp add: well_shaped_def flatten_def)
  have le: "shape0 grid * shape1 grid \<le> 8 * length (bitpack grid)"
    unfolding bitpack_length n by arith
  show l: "length (take (shape0 grid * shape1 grid) (unpack (bitpack grid))) = length (flatten grid)"
    using le by (simp add: unpack_length n)
  have bool: "\<forall>c \<in> set (flatten grid). c = 0 \<or> c = 1"
    using assms(2) by (simp add: is_boolean_def flatten_def list_all_iff)
  fix i assume "i < length (take (shape0 grid * shape1 grid) (unpack (bitpack grid)))"
  then have i: "i < shape0 grid * shape1 grid" by simp
  with le have i8: "i < 8 * length (bitpack grid)" by simp
  from i bool have c: "flatten grid ! i = 0 \<or> flatten grid ! i = 1" by (simp add: n)
  have "unpack (bitpack grid) ! i = (if flatten grid ! i = 1 then 1 else 0)"
    using i by (simp add: unpack_nth [OF i8] bitpack_bit [OF assms(2) i8] n)
  with c i show "take (shape0 grid * shape1 grid) (unpack (bitpack grid)) ! i = flatten grid ! i"
    by auto
qed

theorem unpack_bitpack_witness:
  "well_shaped demo_grid \<and> is_boolean demo_grid \<and>
   take 10 (unpack [170, 192]) = [1, 0, 1, 0, 1, 0, 1, 0, 1, 1]"
proof -
  have w: "well_shaped demo_grid" and b: "is_boolean demo_grid"
    by (simp_all add: demo_grid_def well_shaped_def is_boolean_def)
  from unpack_bitpack [OF w b] w b show ?thesis
    by (simp add: bitpack_demo_grid) (simp add: demo_grid_def flatten_def)
qed

section \<open>Properties of the rasterizer\<close>

lemma x_loop_iff:
  "x_loop lib fl prepared res col lat is_land xos \<longleftrightarrow>
     is_land \<or> (\<exists>xo \<in> set xos. prep_contains lib prepared (cell_lng fl res col xo, lat))"
  by (induction xos) (auto simp: Let_def)

lemma y_loop_iff:
  "y_loop lib fl prepared res row col is_land yos \<longleftrightarrow>
     is_land \<or> (\<exists>yo \<in> set yos. \<exists>xo \<in> set (offsets fl).
        prep_contains lib prepared (cell_lng fl res col xo, cell_lat fl res row yo))"
  by (induction yos arbitrary: is_land) (auto simp: Let_def x_loop_iff)

lemma cell_is_land_iff:
  "cell_is_land lib fl prepared res row col \<longleftrightarrow>
     (\<exists>yo \<in> set (offsets fl). \<exists>xo \<in> set (offsets fl).
        prep_contains lib prepared (cell_lng fl res col xo, cell_lat fl res row yo))"
  by (simp add: cell_is_land_def y_loop_iff)

lemma norm_index_in_range: "0 \<le> i \<Longrightarrow> i < int n \<Longrightarrow> norm_index n i = Inr (nat i)"
  by (simp add: norm_index_def)

lemma set_item_in_range:
  "0 \<le> row \<Longrightarrow> row < int (shape0 a) \<Longrightarrow> 0 \<le> col \<Longrightarrow> col < int (shape1 a) \<Longrightarrow>
   set_item a row col v = Inr (a\<lparr>buffer := (buffer a)[nat row * shape1 a + nat col := v]\<rparr>)"
  by (simp add: set_item_def norm_index_in_range)

lemma get_item_in_range:
  "0 \<le> row \<Longrightarrow> row < int (shape0 a) \<Longrightarrow> 0 \<le> col \<Longrightarrow> col < int (shape1 a) \<Longrightarrow>
   get_item a row col = Inr (buffer a ! (nat row * shape1 a + nat col))"
  by (simp add: get_item_def norm_index_in_range)

lemma cell_offset_less:
  assumes "r < R" and "c < (C::nat)"
  shows "r * C + c < R * C"
proof -
  have "r * C + c < r * C + C" using assms(2) by simp
  also have "\<dots> = Suc r * C" by simp
  also have "\<dots> \<le> R * C" using assms(1) by (intro mult_le_mono1) simp
  finally show ?thesis .
qed

lemma cell_offset_inj:
  assumes "c < (C::nat)" and "c' < C" and "r * C + c = r' * C + c'"
  shows "r = r' \<and> c = c'"
proof -
  have "(r * C + c) div C = r" "(r' * C + c') div C = r'"
    using assms(1,2) by simp_all
  with assms(3) have "r = r'" by simp
  with assms(3) show ?thesis by simp
qed

lemma col_loop_inv:
  assumes "0 \<le> row"
  shows "\<forall>c \<in> set cs. 0 \<le> c \<and> c < int (shape1 grid) \<Longrightarrow> well_shaped grid \<Longrightarrow>
    row < int (shape0 grid) \<Longrightarrow>
    \<exists>g'. col_loop lib fl prepared res row cs grid = Inr g' \<and>
         shape0 g' = shape0 grid \<and> shape1 g' = shape1 grid \<and> well_shaped g' \<and>
         (\<forall>p < length (buffer grid). buffer g' ! p =
            (if \<exists>c \<in> set cs. p = nat row * shape1 grid + nat c
                  \<and> cell_is_land lib fl prepared res row c
             then 1 else buffer grid ! p))"
proof (induction cs arbitrary: grid)
  case Nil
  then show ?case by simp
next
  case (Cons c cs)
  from Cons.prems have c: "0 \<le> c" "c < int (shape1 grid)"
    and cs: "\<forall>c \<in> set cs. 0 \<le> c \<and> c < int (shape1 grid)" by auto
  show ?case
  proof (cases "cell_is_land lib fl prepared res row c")
    case False
    from Cons.IH [OF cs Cons.prems(2,3)] False show ?thesis by auto
  next
    case True
    define g1 where "g1 = grid\<lparr>buffer := (buffer grid)[nat row * shape1 grid + nat c := 1]\<rparr>"
    have s: "set_item grid row c 1 = Inr g1"
      unfolding g1_def using assms Cons.prems(3) c by (rule set_item_in_range)
    have sh: "shape0 g1 = shape0 grid" "shape1 g1 = shape1 grid"
      "length (buffer g1) = length (buffer grid)"
      by (simp_all add: g1_def)
    have ws: "well_shaped g1" using Cons.prems(2) by (simp add: well_shaped_def g1_def)
    have cs1: "\<forall>c \<in> set cs. 0 \<le> c \<and> c < int (shape1 g1)" using cs by (simp add: sh)
    have r1: "row < int (shape0 g1)" using Cons.prems(3) by (simp add: sh)
    from Cons.IH [OF cs1 ws r1] obtain g' where g':
      "col_loop lib fl prepared res row cs g1 = Inr g'"
      "shape0 g' = shape0 g1" "shape1 g' = shape1 g1" "well_shaped g'"
      "\<forall>p < length (buffer g1). buffer g' ! p =
            (if \<exists>c \<in> set cs. p = nat row * shape1 g1 + nat c
                  \<and> cell_is_land lib fl prepared res row c
             then 1 else buffer g1 ! p)"
      by blast
    have "col_loop lib fl prepared res row (c # cs) grid = Inr g'"
      using True s g'(1) by simp
    moreover have "\<forall>p < length (buffer grid). buffer g' ! p =
            (if \<exists>c' \<in> set (c # cs). p = nat row * shape1 grid + nat c'
                  \<and> cell_is_land lib fl prepared res row c'
             then 1 else buffer grid ! p)"
    proof (intro allI impI)
      fix p assume p: "p < length (buffer grid)"
      have "buffer g1 ! p = (if p = nat row * shape1 grid + nat c then 1 else buffer grid ! p)"
        using p by (simp add: g1_def nth_list_update)
      with g'(5) p True show "buffer g' ! p =
            (if \<exists>c' \<in> set (c # cs). p = nat row * shape1 grid + nat c'
                  \<and> cell_is_land lib fl prepared res row c'
             then 1 else buffer grid ! p)"
        by (auto simp: sh)
    qed
    ultimately show ?thesis using g'(2,3,4) by (simp add: sh)
  qed
qed

lemma set_py_range: "c \<in> set (py_range n) \<longleftrightarrow> 0 \<le> c \<and> c < n"
proof
  assume "c \<in> set (py_range n)"
  then show "0 \<le> c \<and> c < n" by (auto simp: py_range_def)
next
  assume "0 \<le> c \<and> c < n"
  then have "nat c \<in> set [0..<nat n]" and c: "int (nat c) = c" by simp_all
  then have "int (nat c) \<in> set (py_range n)" unfolding py_range_def set_map by (intro imageI)
  then show "c \<in> set (py_range n)" by (simp only: c)
qed

lemma row_loop_inv:
  "\<forall>r \<in> set rs. 0 \<le> r \<and> r < int (shape0 grid) \<Longrightarrow> well_shaped grid \<Longrightarrow>
   cols = int (shape1 grid) \<Longrightarrow>
   total_cells \<noteq> 0 \<or> (\<forall>r \<in> set rs. (r + 1) mod 180 \<noteq> 0) \<Longrightarrow>
   \<exists>g'. row_loop lib fl prepared res rs cols total_cells grid = Inr g' \<and>
        shape0 g' = shape0 grid \<and> shape1 g' = shape1 grid \<and> well_shaped g' \<and>
        (\<forall>p < length (buffer grid). buffer g' ! p =
           (if \<exists>r \<in> set rs. \<exists>c \<in> set (py_range cols). p = nat r * shape1 grid + nat c
                 \<and> cell_is_land lib fl prepared res r c
            then 1 else buffer grid ! p))"
proof (induction rs arbitrary: grid)
  case Nil
  then show ?case by simp
next
  case (Cons r rs)
  from Cons.prems have r: "0 \<le> r" "r < int (shape0 grid)"
    and rs: "\<forall>r \<in> set rs. 0 \<le> r \<and> r < int (shape0 grid)" by auto
  have cr: "\<forall>c \<in> set (py_range cols). 0 \<le> c \<and> c < int (shape1 grid)"
    using Cons.prems(3) by (simp add: set_py_range)
  from col_loop_inv [where lib = lib and fl = fl and prepared = prepared and res = res,
      OF r(1) cr Cons.prems(2) r(2)] obtain g1 where g1:
    "col_loop lib fl prepared res r (py_range cols) grid = Inr g1"
    "shape0 g1 = shape0 grid" "shape1 g1 = shape1 grid" "well_shaped g1"
    "\<forall>p < length (buffer grid). buffer g1 ! p =
        (if \<exists>c \<in> set (py_range cols). p = nat r * shape1 grid + nat c
              \<and> cell_is_land lib fl prepared res r c
         then 1 else buffer grid ! p)"
    by blast
  have len: "length (buffer g1) = length (buffer grid)"
    using g1(2,3,4) Cons.prems(2) by (simp add: well_shaped_def)
  have rs1: "\<forall>r \<in> set rs. 0 \<le> r \<and> r < int (shape0 g1)" using rs by (simp add: g1)
  have c1: "cols = int (shape1 g1)" using Cons.prems(3) by (simp add: g1)
  have t1: "total_cells \<noteq> 0 \<or> (\<forall>r \<in> set rs. (r + 1) mod 180 \<noteq> 0)"
    using Cons.prems(4) by auto
  from Cons.IH [OF rs1 g1(4) c1 t1] obtain g' where g':
    "row_loop lib fl prepared res rs cols total_cells g1 = Inr g'"
    "shape0 g' = shape0 g1" "shape1 g' = shape1 g1" "well_shaped g'"
    "\<forall>p < length (buffer g1). buffer g' ! p =
        (if \<exists>r \<in> set rs. \<exists>c \<in> set (py_range cols). p = nat r * shape1 g1 + nat c
              \<and> cell_is_land lib fl prepared res r c
         then 1 else buffer g1 ! p)"
    by blast
  have nz: "\<not> ((r + 1) mod 180 = 0 \<and> total_cells = 0)" using Cons.prems(4) by auto
  have "row_loop lib fl prepared res (r # rs) cols total_cells grid = Inr g'"
    using g1(1) g'(1) nz by simp
  moreover have "\<forall>p < length (buffer grid). buffer g' ! p =
        (if \<exists>r' \<in> set (r # rs). \<exists>c \<in> set (py_range cols). p = nat r' * shape1 grid + nat c
              \<and> cell_is_land lib fl prepared res r' c
         then 1 else buffer grid ! p)"
  proof (intro allI impI)
    fix p assume p: "p < length (buffer grid)"
    with g1(5) g'(5) show "buffer g' ! p =
        (if \<exists>r' \<in> set (r # rs). \<exists>c \<in> set (py_range cols). p = nat r' * shape1 grid + nat c
              \<and> cell_is_land lib fl prepared res r' c
         then 1 else buffer grid ! p)"
      by (auto simp: len g1(3))
  qed
  ultimately show ?case using g'(2,3,4) g1(2,3) by simp
qed

lemma np_zeros_ok:
  "0 \<le> rows \<Longrightarrow> 0 \<le> cols \<Longrightarrow>
   np_zeros rows cols = Inr \<lparr>shape0 = nat rows, shape1 = nat cols, buffer = zeros (nat rows * nat cols)\<rparr>"
  by (simp add: np_zeros_def)

lemma generate_grid_returns:
  assumes "0 \<le> rows" and "0 \<le> cols" and "cols \<noteq> 0 \<or> rows < 180"
  shows "\<exists>grid. generate_grid lib fl world rows cols res = Inr grid \<and>
      shape0 grid = nat rows \<and> shape1 grid = nat cols \<and> well_shaped grid \<and>
      (\<forall>p < nat rows * nat cols. buffer grid ! p =
         (if \<exists>r \<in> set (py_range rows). \<exists>c \<in> set (py_range cols). p = nat r * nat cols + nat c
               \<and> cell_is_land lib fl (unary_union lib (land_geoms world)) res r c
          then 1 else 0))"
proof -
  define g0 where "g0 = \<lparr>shape0 = nat rows, shape1 = nat cols, buffer = zeros (nat rows * nat cols)\<rparr>"
  have z: "np_zeros rows cols = Inr g0" unfolding g0_def using assms(1,2) by (rule np_zeros_ok)
  have ws: "well_shaped g0" by (simp add: g0_def well_shaped_def zeros_def)
  have rs: "\<forall>r \<in> set (py_range rows). 0 \<le> r \<and> r < int (shape0 g0)"
    using assms(1) by (simp add: set_py_range g0_def)
  have c: "cols = int (shape1 g0)" using assms(2) by (simp add: g0_def)
  have t: "rows * cols \<noteq> 0 \<or> (\<forall>r \<in> set (py_range rows). (r + 1) mod 180 \<noteq> 0)"
  proof (cases "rows < 180")
    case True
    then have "\<forall>r \<in> set (py_range rows). (r + 1) mod 180 \<noteq> 0"
      by (auto simp: set_py_range)
    then show ?thesis ..
  next
    case False
    with assms(3) have "rows \<noteq> 0" "cols \<noteq> 0" by auto
    then show ?thesis by simp
  qed
  from row_loop_inv [where lib = lib and fl = fl and res = res
      and prepared = "unary_union lib (land_geoms world)", OF rs ws c t]
  obtain g' where g':
    "row_loop lib fl (unary_union lib (land_geoms world)) res (py_range rows) cols (rows * cols) g0
       = Inr g'"
    "shape0 g' = shape0 g0" "shape1 g' = shape1 g0" "well_shaped g'"
    "\<forall>p < length (buffer g0). buffer g' ! p =
        (if \<exists>r \<in> set (py_range rows). \<exists>c \<in> set (py_range cols). p = nat r * shape1 g0 + nat c
              \<and> cell_is_land lib fl (unary_union lib (land_geoms world)) res r c
         then 1 else buffer g0 ! p)"
    by blast
  have "generate_grid lib fl world rows cols res = Inr g'"
    by (simp add: generate_grid_def z g'(1) Let_def)
  moreover have "\<forall>p < nat rows * nat cols. buffer g' ! p =
         (if \<exists>r \<in> set (py_range rows). \<exists>c \<in> set (py_range cols). p = nat r * nat cols + nat c
               \<and> cell_is_land lib fl (unary_union lib (land_geoms world)) res r c
          then 1 else 0)"
  proof (intro allI impI)
    fix p assume p: "p < nat rows * nat cols"
    then have "p < length (buffer g0)" and "buffer g0 ! p = 0" and "shape1 g0 = nat cols"
      by (simp_all add: g0_def zeros_def)
    with g'(5) show "buffer g' ! p =
         (if \<exists>r \<in> set (py_range rows). \<exists>c \<in> set (py_range cols). p = nat r * nat cols + nat c
               \<and> cell_is_land lib fl (unary_union lib (land_geoms world)) res r c
          then 1 else 0)"
      by simp
  qed
  moreover have "shape0 g0 = nat rows" "shape1 g0 = nat cols" by (simp_all add: g0_def)
  ultimately show ?thesis using g'(2,3,4) by simp
qed

lemma generate_grid_cell:
  assumes "0 \<le> row" "row < rows" "0 \<le> col" "col < cols"
  shows "\<exists>grid. generate_grid lib fl world rows cols res = Inr grid \<and>
      shape0 grid = nat rows \<and> shape1 grid = nat cols \<and>
      get_item grid row col =
        Inr (if cell_is_land lib fl (unary_union lib (land_geoms world)) res row col then 1 else 0)"
proof -
  let ?land = "cell_is_land lib fl (unary_union lib (land_geoms world)) res"
  have "0 \<le> rows" "0 \<le> cols" "cols \<noteq> 0 \<or> rows < 180" using assms by auto
  from generate_grid_returns [OF this, of lib fl world res] obtain grid where g:
    "generate_grid lib fl world rows cols res = Inr grid"
    "shape0 grid = nat rows" "shape1 grid = nat cols" "well_shaped grid"
    "\<forall>p < nat rows * nat cols. buffer grid ! p =
         (if \<exists>r \<in> set (py_range rows). \<exists>c \<in> set (py_range cols). p = nat r * nat cols + nat c
               \<and> ?land r c
          then 1 else 0)"
    by blast
  let ?p = "nat row * nat cols + nat col"
  have p: "?p < nat rows * nat cols"
    using assms by (intro cell_offset_less) simp_all
  have u: "(\<exists>r \<in> set (py_range rows). \<exists>c \<in> set (py_range cols). ?p = nat r * nat cols + nat c
               \<and> ?land r c) \<longleftrightarrow> ?land row col"
  proof
    assume "\<exists>r \<in> set (py_range rows). \<exists>c \<in> set (py_range cols). ?p = nat r * nat cols + nat c
               \<and> ?land r c"
    then obtain r c where rc: "0 \<le> r" "0 \<le> c" "c < cols" "?p = nat r * nat cols + nat c" "?land r c"
      by (auto simp: set_py_range)
    have "nat row = nat r \<and> nat col = nat c"
      using rc(3) assms(4) rc(2) assms(3) by (intro cell_offset_inj [OF _ _ rc(4)]) simp_all
    with rc(1,2) assms(1,3) have "r = row" "c = col" by (simp_all add: eq_nat_nat_iff)
    with rc(5) show "?land row col" by simp
  next
    assume "?land row col"
    moreover have "row \<in> set (py_range rows)" "col \<in> set (py_range cols)"
      using assms by (simp_all add: set_py_range)
    ultimately show "\<exists>r \<in> set (py_range rows). \<exists>c \<in> set (py_range cols).
        ?p = nat r * nat cols + nat c \<and> ?land r c"
      by blast
  qed
  have "get_item grid row col = Inr (buffer grid ! ?p)"
    using assms by (simp add: get_item_in_range g(2,3))
  also have "buffer grid ! ?p = (if ?land row col then 1 else 0)"
    using g(5) p u by simp
  finally show ?thesis using g(1,2,3) by simp
qed

lemma cell_is_land_samples:
  "cell_is_land lib fl (unary_union lib (land_geoms world)) res row col \<longleftrightarrow>
     (\<exists>y_offset \<in> {17 / 100, 1 / 2, 83 / 100}. \<exists>x_offset \<in> {17 / 100, 1 / 2, 83 / 100}.
        sample_hit lib fl world res row col y_offset x_offset)"
  by (simp add: cell_is_land_iff offsets_def sample_hit_def cell_lat_def cell_lng_def)

lemma coast_world_grid:
  "generate_grid box_lib exact_ops coast_world 2 2 1
     = Inr \<lparr>shape0 = 2, shape1 = 2, buffer = [1, 0, 0, 0]\<rparr>"
  by code_simp

text \<open>
  Claim C1. For every cell \<open>(row, col)\<close> of the grid that \<open>generate_grid\<close> produces, the
  cell is land (1) if and only if at least one of the nine sub-sample points, at the
  offsets 0.17, 0.5 and 0.83 in both axes, lies in the merged geometry, and water (0)
  otherwise. In particular a cell whose last-tested point (0.83, 0.83) is contained is
  land: leaving the loops early does not change the value. The grid exists: the run ends
  without an exception and the array has \<open>rows\<close> by \<open>cols\<close> cells.
\<close>

theorem generate_grid_any_subsample:
  assumes "0 \<le> row" and "row < rows" and "0 \<le> col" and "col < cols"
  shows "\<exists>grid. generate_grid lib fl world rows cols res = Inr grid \<and>
      shape0 grid = nat rows \<and> shape1 grid = nat cols \<and>
      get_item grid row col =
        Inr (if \<exists>y_offset \<in> {17 / 100, 1 / 2, 83 / 100}. \<exists>x_offset \<in> {17 / 100, 1 / 2, 83 / 100}.
                  sample_hit lib fl world res row col y_offset x_offset
             then 1 else 0) \<and>
      (sample_hit lib fl world res row col (83 / 100) (83 / 100) \<longrightarrow> get_item grid row col = Inr 1)"
proof -
  from generate_grid_cell [OF assms, of lib fl world res] obtain grid where g:
    "generate_grid lib fl world rows cols res = Inr grid"
    "shape0 grid = nat rows" "shape1 grid = nat cols"
    "get_item grid row col =
        Inr (if cell_is_land lib fl (unary_union lib (land_geoms world)) res row col then 1 else 0)"
    by blast
  have "sample_hit lib fl world res row col (83 / 100) (83 / 100) \<longrightarrow> get_item grid row col = Inr 1"
    unfolding g(4) cell_is_land_samples by simp
  with g show ?thesis unfolding cell_is_land_samples by blast
qed

theorem generate_grid_any_subsample_witness:
  "sample_hit box_lib exact_ops coast_world 1 0 0 (83 / 100) (83 / 100) \<and>
   \<not> sample_hit box_lib exact_ops coast_world 1 0 0 (1 / 2) (83 / 100) \<and>
   \<not> sample_hit box_lib exact_ops coast_world 1 0 0 (1 / 2) (1 / 2) \<and>
   get_item \<lparr>shape0 = 2, shape1 = 2, buffer = [1, 0, 0, 0]\<rparr> 0 0 = Inr 1"
proof -
  have h: "sample_hit box_lib exact_ops coast_world 1 0 0 (83 / 100) (83 / 100)"
    by (simp add: sample_hit_def box_lib_def exact_ops_def coast_world_def land_geoms_def
        List.map_filter_simps)
  have n: "\<not> sample_hit box_lib exact_ops coast_world 1 0 0 (1 / 2) (83 / 100)"
    "\<not> sample_hit box_lib exact_ops coast_world 1 0 0 (1 / 2) (1 / 2)"
    by (simp_all add: sample_hit_def box_lib_def exact_ops_def coast_world_def land_geoms_def
        List.map_filter_simps)
  from generate_grid_any_subsample [of 0 2 0 2 box_lib exact_ops coast_world 1] h
  have "get_item \<lparr>shape0 = 2, shape1 = 2, buffer = [1, 0, 0, 0]\<rparr> 0 0 = Inr 1"
    by (simp add: coast_world_grid)
  with h n show ?thesis by simp
qed

text \<open>
  Claim C9, as stated: with zero usable (non-null) geometries the loader fails with an
  \<open>EmptyGeometryError\<close> before rasterization. The source has no such check: a dataset
  of null entries only is merged and rasterized, and a grid is returned.
\<close>

theorem generate_grid_no_geometry_counterexample:
  "generate_grid box_lib exact_ops [None, None] 1 2 1
     = Inr \<lparr>shape0 = 1, shape1 = 2, buffer = [0, 0]\<rparr>"
  by code_simp

text \<open>
  Claim C9, amended. If the dataset has no usable geometry, \<open>generate_grid\<close> raises no
  error: the empty list of geometries is merged and rasterized like any other, and for
  \<open>rows \<ge> 0\<close> and \<open>cols > 0\<close> the grid of \<open>rows\<close> by \<open>cols\<close> cells is returned.
\<close>

theorem generate_grid_no_usable_geometry:
  assumes "\<forall>x \<in> set world. x = None" and "0 \<le> rows" and "0 < cols"
  shows "land_geoms world = [] \<and>
    (\<exists>grid. generate_grid lib fl world rows cols res = Inr grid \<and>
       shape0 grid = nat rows \<and> shape1 grid = nat cols \<and> well_shaped grid)"
proof -
  have "List.map_filter id world = []"
    using assms(1) by (induction world) (simp_all add: List.map_filter_simps)
  then have e: "land_geoms world = []" by (simp add: land_geoms_def)
  have "0 \<le> cols" "cols \<noteq> 0 \<or> rows < 180" using assms(3) by simp_all
  from generate_grid_returns [OF assms(2) this, of lib fl world res] e
  show ?thesis by blast
qed

theorem generate_grid_no_usable_geometry_witness:
  "set [None, None :: box option] = {None} \<and> (0::int) \<le> 1 \<and> (0::int) < 2 \<and>
   land_geoms [None, None :: box option] = [] \<and>
   (\<exists>grid. generate_grid box_lib exact_ops [None, None] 1 2 1 = Inr grid \<and>
      shape0 grid = 1 \<and> shape1 grid = 2 \<and> well_shaped grid)"
  using generate_grid_no_usable_geometry [of "[None, None :: box option]" 1 2 box_lib exact_ops 1]
  by simp

section \<open>Properties of the validator\<close>

lemma clamp_index_range: "0 < n \<Longrightarrow> 0 \<le> clamp_index n i \<and> clamp_index n i < int n"
  by (auto simp: clamp_index_def)

lemma check_no_index_error:
  assumes "0 < shape0 grid" and "0 < shape1 grid"
  shows "check fl grid res lat lng expected \<noteq> Inl IndexError"
proof -
  have "\<And>row0 col0. get_item grid (clamp_index (shape0 grid) row0) (clamp_index (shape1 grid) col0)
      \<noteq> Inl IndexError"
    using clamp_index_range [OF assms(1)] clamp_index_range [OF assms(2)]
    by (simp add: get_item_in_range)
  then show ?thesis
    by (auto simp: check_def Let_def clamp_index_def
        split: option.splits trunc_result.splits sum.splits)
qed

lemma check_result:
  assumes "0 < shape0 grid" and "0 < shape1 grid"
    and "fdiv fl (fsub fl (float_of_int fl 90) lat) res = Some q1"
    and "ftrunc fl q1 = Truncated row0"
    and "fdiv fl (fadd fl lng (float_of_int fl 180)) res = Some q2"
    and "ftrunc fl q2 = Truncated col0"
  shows "check fl grid res lat lng expected =
     Inr ((buffer grid ! (nat (clamp_index (shape0 grid) row0) * shape1 grid
                           + nat (clamp_index (shape1 grid) col0)) \<noteq> 0) = expected)"
proof -
  have "get_item grid (clamp_index (shape0 grid) row0) (clamp_index (shape1 grid) col0)
      = Inr (buffer grid ! (nat (clamp_index (shape0 grid) row0) * shape1 grid
                           + nat (clamp_index (shape1 grid) col0)))"
    using clamp_index_range [OF assms(1)] clamp_index_range [OF assms(2)]
    by (simp add: get_item_in_range)
  then show ?thesis
    by (simp add: check_def Let_def assms(3-6) clamp_index_def [symmetric])
qed

text \<open>
  Claim C3, as stated: for every grid the clamped indices never make \<open>check\<close> fail with
  an indexing error. On a grid without cells the clamped index 0 is out of range and the
  read raises \<open>IndexError\<close>.
\<close>

theorem check_empty_grid_index_error:
  "check exact_ops \<lparr>shape0 = 0, shape1 = 0, buffer = []\<rparr> 1 0 0 False = Inl IndexError"
  by (simp add: check_def exact_ops_def get_item_def norm_index_def)

text \<open>
  Claim C3, amended. For every validation entry and every grid with at least one row and
  one column, \<open>check\<close> never fails with an indexing error; and when the two quotients
  \<open>(90 - lat) / res\<close> and \<open>(lng + 180) / res\<close> truncate to the integers \<open>row0\<close> and
  \<open>col0\<close>, the indices clamped to \<open>[0, rows - 1]\<close> and \<open>[0, cols - 1]\<close> select a cell and
  \<open>check\<close> reports success exactly when that cell, read as a boolean, equals the expected
  one.
\<close>

theorem check_clamps_indices:
  assumes "0 < shape0 grid" and "0 < shape1 grid"
  shows "check fl grid res lat lng expected_land \<noteq> Inl IndexError \<and>
    (\<forall>q1 row0 q2 col0.
       fdiv fl (fsub fl (float_of_int fl 90) lat) res = Some q1 \<and> ftrunc fl q1 = Truncated row0 \<and>
       fdiv fl (fadd fl lng (float_of_int fl 180)) res = Some q2 \<and> ftrunc fl q2 = Truncated col0
       \<longrightarrow>
       (let row = max 0 (min (int (shape0 grid) - 1) row0);
            col = max 0 (min (int (shape1 grid) - 1) col0)
        in 0 \<le> row \<and> row \<le> int (shape0 grid) - 1 \<and> 0 \<le> col \<and> col \<le> int (shape1 grid) - 1 \<and>
           (\<exists>c. get_item grid row col = Inr c \<and>
                check fl grid res lat lng expected_land = Inr ((c \<noteq> 0) = expected_land))))"
proof (intro conjI allI impI)
  show "check fl grid res lat lng expected_land \<noteq> Inl IndexError"
    using assms by (rule check_no_index_error)
next
  fix q1 row0 q2 col0
  assume a: "fdiv fl (fsub fl (float_of_int fl 90) lat) res = Some q1 \<and> ftrunc fl q1 = Truncated row0 \<and>
       fdiv fl (fadd fl lng (float_of_int fl 180)) res = Some q2 \<and> ftrunc fl q2 = Truncated col0"
  let ?row = "clamp_index (shape0 grid) row0" and ?col = "clamp_index (shape1 grid) col0"
  have r: "0 \<le> ?row \<and> ?row < int (shape0 grid)" and c: "0 \<le> ?col \<and> ?col < int (shape1 grid)"
    using assms by (simp_all add: clamp_index_range)
  have g: "get_item grid ?row ?col = Inr (buffer grid ! (nat ?row * shape1 grid + nat ?col))"
    using r c by (simp add: get_item_in_range)
  have k: "check fl grid res lat lng expected_land
      = Inr ((buffer grid ! (nat ?row * shape1 grid + nat ?col) \<noteq> 0) = expected_land)"
    using a by (intro check_result [OF assms, of fl lat res q1 row0 lng q2 col0]) simp_all
  from r c g k
  show "let row = max 0 (min (int (shape0 grid) - 1) row0);
            col = max 0 (min (int (shape1 grid) - 1) col0)
        in 0 \<le> row \<and> row \<le> int (shape0 grid) - 1 \<and> 0 \<le> col \<and> col \<le> int (shape1 grid) - 1 \<and>
           (\<exists>c. get_item grid row col = Inr c \<and>
                check fl grid res lat lng expected_land = Inr ((c \<noteq> 0) = expected_land))"
    unfolding Let_def clamp_index_def by simp
qed

theorem check_clamps_indices_witness:
  "0 < shape0 spot_grid \<and> 0 < shape1 spot_grid \<and>
   fdiv exact_ops (fsub exact_ops (float_of_int exact_ops 90) 45) 90 = Some (1 / 2) \<and>
   ftrunc exact_ops (1 / 2) = Truncated 0 \<and>
   fdiv exact_ops (fadd exact_ops 100 (float_of_int exact_ops 180)) 90 = Some (28 / 9) \<and>
   ftrunc exact_ops (28 / 9) = Truncated 3 \<and>
   get_item spot_grid 0 1 = Inr 1 \<and>
   check exact_ops spot_grid 90 45 100 True = Inr True"
proof -
  have s: "0 < shape0 spot_grid" "0 < shape1 spot_grid" by (simp_all add: spot_grid_def)
  have f: "fdiv exact_ops (fsub exact_ops (float_of_int exact_ops 90) 45) 90 = Some (1 / 2) \<and>
      ftrunc exact_ops (1 / 2) = Truncated 0 \<and>
      fdiv exact_ops (fadd exact_ops 100 (float_of_int exact_ops 180)) 90 = Some (28 / 9) \<and>
      ftrunc exact_ops (28 / 9) = Truncated 3"
    by (simp add: exact_ops_def floor_eq_iff)
  have g: "get_item spot_grid 0 1 = Inr 1"
    by (simp add: get_item_def norm_index_def spot_grid_def)
  from check_clamps_indices [OF s, of exact_ops 90 45 100 True] f
  have "let row = max 0 (min (int (shape0 spot_grid) - 1) 0);
            col = max 0 (min (int (shape1 spot_grid) - 1) 3)
        in 0 \<le> row \<and> row \<le> int (shape0 spot_grid) - 1 \<and> 0 \<le> col \<and> col \<le> int (shape1 spot_grid) - 1 \<and>
           (\<exists>c. get_item spot_grid row col = Inr c \<and>
                check exact_ops spot_grid 90 45 100 True = Inr ((c \<noteq> 0) = True))"
    by blast
  then have "check exact_ops spot_grid 90 45 100 True = Inr True"
    by (simp add: Let_def g) (simp add: spot_grid_def g [unfolded spot_grid_def])
  with s f g show ?thesis by simp
qed

text \<open>
  Claim C4, as stated: the default arguments of \<open>generate_grid\<close> and \<open>validate_grid\<close> are
  \<open>rows = 1800\<close>, \<open>cols = 3600\<close>, \<open>res = 0.1\<close>. They are 720, 1440 and 0.25.
\<close>

theorem defaults_counterexample:
  "\<not> (generate_grid_default_rows = 1800 \<and> generate_grid_default_cols = 3600 \<and>
      generate_grid_default_res = 1 / 10 \<and> validate_grid_default_res = 1 / 10)"
  by (simp add: generate_grid_default_rows_def)

text \<open>
  Claim C4, amended. \<open>main\<close> runs the pipeline with \<open>rows = 1800\<close>, \<open>cols = 3600\<close>,
  \<open>res = 0.1\<close>, passed explicitly; the default arguments are \<open>rows = 720\<close>,
  \<open>cols = 1440\<close>, \<open>res = 0.25\<close> for \<open>generate_grid\<close> and \<open>res = 0.25\<close> for
  \<open>validate_grid\<close>. Both parameter sets satisfy \<open>rows * res = 180\<close> and
  \<open>cols * res = 360\<close>, on the decimal values of the literals.
\<close>

theorem pipeline_parameters:
  "main_rows = 1800 \<and> main_cols = 3600 \<and> main_res = 1 / 10 \<and>
   of_int main_rows * main_res = 180 \<and> of_int main_cols * main_res = 360 \<and>
   generate_grid_call lib fl world None None None
     = generate_grid lib fl world 720 1440 (float_lit fl (25 / 100)) \<and>
   validate_grid_call fl grid None = validate_grid fl grid (float_lit fl (25 / 100)) \<and>
   of_int generate_grid_default_rows * generate_grid_default_res = 180 \<and>
   of_int generate_grid_default_cols * generate_grid_default_res = 360 \<and>
   main lib fl world =
     (case generate_grid lib fl world 1800 3600 (float_lit fl (1 / 10)) of
        Inl e \<Rightarrow> Inl e
      | Inr grid \<Rightarrow>
          (case validate_grid fl grid (float_lit fl (1 / 10)) of
             Inl e \<Rightarrow> Inl e
           | Inr ok \<Rightarrow>
               Inr (''const LAND_BITMAP_RLE_B64 = '' @ [CHR 0x22]
                      @ b64encode (rle_encode (bitpack grid)) @ [CHR 0x22] @ '';'')))"
  by (simp add: main_def main_rows_def main_cols_def main_res_def generate_grid_call_def
      validate_grid_call_def generate_grid_default_rows_def generate_grid_default_cols_def
      generate_grid_default_res_def validate_grid_default_res_def Let_def
      cong: sum.case_cong)

theorem pipeline_parameters_witness:
  "generate_grid_call box_lib exact_ops coast_world None None None
     = generate_grid box_lib exact_ops coast_world 720 1440 (1 / 4) \<and>
   validate_grid_call exact_ops spot_grid None = validate_grid exact_ops spot_grid (1 / 4)"
  using pipeline_parameters [of box_lib exact_ops coast_world spot_grid]
  by (simp add: exact_ops_def)

section \<open>The whole encoder chain on an all-water grid\<close>

lemma b64_char_0: "b64_char 0 = CHR ''A''" by (simp add: b64_char_def b64_alphabet_def)

lemma b64_char_8: "b64_char 8 = CHR ''I''" by (simp add: b64_char_def b64_alphabet_def)

text \<open>
  Claim C8. An all-water grid with \<open>rows * cols = 16\<close> bit-packs to the two bytes
  \<open>0x00, 0x00\<close>, which run-length encode to \<open>0x00, 0x02\<close>, which base64-encode to
  \<open>AAI=\<close>.
\<close>

theorem all_water_16:
  assumes "well_shaped grid" and "shape0 grid * shape1 grid = 16"
    and "\<forall>c \<in> set (flatten grid). c = 0"
  shows "bitpack grid = [0, 0] \<and> rle_encode (bitpack grid) = [0, 2] \<and>
    b64encode (rle_encode (bitpack grid)) = ''AAI=''"
proof -
  have "length (flatten grid) = 16"
    using assms(1,2) by (simp add: well_shaped_def flatten_def)
  moreover have "replicate (length (flatten grid)) 0 = flatten grid"
    using assms(3) by (rule replicate_length_same)
  ultimately have f: "flatten grid = replicate 16 0"
    by (simp only:)
  have "bitpack grid = bitpack \<lparr>shape0 = 4, shape1 = 4, buffer = replicate 16 0\<rparr>"
    unfolding bitpack_def f by (simp add: flatten_def)
  also have "\<dots> = [0, 0]" by code_simp
  finally have p: "bitpack grid = [0, 0]" .
  have r: "rle_encode [0, 0] = [0, 2]" by code_simp
  have b: "b64encode [0, 2] = ''AAI=''" by (simp add: b64_char_0 b64_char_8)
  show ?thesis by (simp only: p r b simp_thms)
qed

theorem all_water_16_witness:
  "well_shaped water_grid \<and> shape0 water_grid * shape1 water_grid = 16 \<and>
   set (flatten water_grid) = {0} \<and>
   bitpack water_grid = [0, 0] \<and>
   b64encode (rle_encode (bitpack water_grid)) = ''AAI=''"
proof -
  have w: "well_shaped water_grid" and s: "shape0 water_grid * shape1 water_grid = 16"
    and z: "\<forall>c \<in> set (flatten water_grid). c = 0"
    by (simp_all add: water_grid_def well_shaped_def flatten_def)
  have e: "set (flatten water_grid) = {0}"
    by (simp add: water_grid_def flatten_def)
  from all_water_16 [OF w s z] w s e show ?thesis by blast
qed

end
